theory Spec2Isabelle
  imports Main "HOL-Library.Word" "HOL-Library.AList"
begin

section \<open>The chunked file reader (cameraFileReader)\<close>

text \<open>
  Go's \<open>uint64\<close> is a 64-bit word (\<open>+\<close> and \<open>-\<close> wrap), a \<open>byte\<close> an
  8-bit word, and \<open>int\<close> is the 64-bit signed integer of the platforms cgo supports
  here, read off a word by \<open>sint\<close>. The two errors \<open>Read\<close> can return are the
  values \<open>io.ErrClosedPipe\<close> and \<open>io.EOF\<close>; \<open>nil\<close> is \<open>None\<close>.
\<close>

type_synonym byte = "8 word"
type_synonym uint64 = "64 word"

datatype io_error = ErrClosedPipe | EOF

text \<open>\<open>const fileReaderBufferSize = 1 * 1024 * 1024\<close>\<close>

definition fileReaderBufferSize :: nat where
  "fileReaderBufferSize = 1 * 1024 * 1024"

text \<open>
  The struct \<open>cameraFileReader\<close>. Its fields \<open>camera\<close>, \<open>folder\<close> and
  \<open>fileName\<close> are written once by \<open>FileReader\<close> and read by neither \<open>Read\<close> nor
  \<open>Close\<close>; they are left out. The native data buffer \<open>cBuffer\<close> is the list of
  the bytes the native layer holds; the field \<open>buffer\<close> of the source is only
  used for its length, which is \<open>fileReaderBufferSize\<close>. The native file object
  \<open>cCameraFile\<close> is represented by the number of times \<open>C.gp_file_free\<close> has been
  called on it (\<open>cCameraFile_frees\<close>).
\<close>

record cameraFileReader =
  fullSize :: uint64
  offset :: uint64
  closed :: bool
  cBuffer :: "byte list"
  cCameraFile_frees :: nat

text \<open>
  \<open>goSlice[k]\<close>: the slice header built in \<open>Read\<close> has \<open>Len = int(cfr.fullSize)\<close>,
  so Go panics unless \<open>0 \<le> k < Len\<close>; the read itself touches native memory and
  faults outside the bytes the native layer holds. Both are \<open>None\<close>.
\<close>

definition goSlice_index :: "cameraFileReader \<Rightarrow> uint64 \<Rightarrow> byte option" where
  "goSlice_index cfr k =
     (if uint k < sint (fullSize cfr) \<and> unat k < length (cBuffer cfr)
      then Some (cBuffer cfr ! unat k) else None)"

text \<open>
  The copy loop of \<open>Read\<close>:
  \<^verbatim>\<open>for i := uint64(0); i < toRead; i++ { p[i] = byte(goSlice[cfr.offset+i]) }\<close>
  An index outside \<open>p\<close> panics (\<open>None\<close>).
\<close>

function copy_loop :: "cameraFileReader \<Rightarrow> byte list \<Rightarrow> uint64 \<Rightarrow> uint64 \<Rightarrow> byte list option" where
  "copy_loop cfr p i toRead =
     (if i < toRead then
        (if unat i < length p then
           (case goSlice_index cfr (offset cfr + i) of
              None \<Rightarrow> None
            | Some c \<Rightarrow> copy_loop cfr (p[unat i := c]) (i + 1) toRead)
         else None)
      else Some p)"
  by pat_completeness auto
termination
proof (relation "measure (\<lambda>(cfr, p, i, toRead). unat toRead - unat i)")
  show "wf (measure (\<lambda>(cfr, p, i, toRead). unat toRead - unat i))"
    by simp
next
  fix cfr :: cameraFileReader and p :: "byte list" and i toRead :: uint64 and c :: byte
  assume lt: "i < toRead"
  then have below: "unat i < unat toRead"
    by (simp add: word_less_nat_alt)
  moreover have "unat toRead < 2 ^ 64"
    using unsigned_less [of toRead] by simp
  ultimately have "unat i + unat (1 :: uint64) < 2 ^ LENGTH(64)"
    by simp
  then have "unat (i + 1) = unat i + unat (1 :: uint64)"
    by (simp only: unat_add_lem)
  then have "unat (i + 1) = Suc (unat i)"
    by simp
  moreover note below
  ultimately show "((cfr, p[unat i := c], i + 1, toRead), (cfr, p, i, toRead))
      \<in> measure (\<lambda>(cfr, p, i, toRead). unat toRead - unat i)"
    by simp
qed

declare copy_loop.simps [simp del]

text \<open>
  \<open>Read\<close> returns the reader after the call, the caller's buffer after the call, the
  byte count and the error; \<open>None\<close> is a panic of the copy loop.
\<close>

definition Read ::
  "cameraFileReader \<Rightarrow> byte list \<Rightarrow> (cameraFileReader \<times> byte list \<times> int \<times> io_error option) option" where
  "Read cfr p =
     (if closed cfr then Some (cfr, p, 0, Some ErrClosedPipe)
      else
        let n = (of_nat (length p) :: uint64) in
        if n = 0 then Some (cfr, p, 0, None)
        else
          let bufLen = (of_nat fileReaderBufferSize :: uint64);
              remaining = fullSize cfr - offset cfr;
              toRead = bufLen;
              toRead = (if toRead > remaining then remaining else toRead);
              toRead = (if toRead > n then n else toRead)
          in
            (case copy_loop cfr p 0 toRead of
               None \<Rightarrow> None
             | Some p' \<Rightarrow>
                 let cfr' = cfr\<lparr>offset := offset cfr + toRead\<rparr> in
                 if offset cfr' < fullSize cfr' then Some (cfr', p', sint toRead, None)
                 else Some (cfr', p', sint toRead, Some EOF)))"

text \<open>
  \<open>Close\<close> returns the reader after the call and the error, which is always \<open>nil\<close>.
\<close>

definition Close :: "cameraFileReader \<Rightarrow> cameraFileReader \<times> io_error option" where
  "Close cfr =
     (if \<not> closed cfr
      then (cfr\<lparr>cCameraFile_frees := cCameraFile_frees cfr + 1, closed := True\<rparr>, None)
      else (cfr, None))"

text \<open>
  \<open>Camera.FileReader\<close>: the reader starts at offset 0, not closed, over the data
  pointer and the size that \<open>C.gp_file_get_data_and_size\<close> hands back (the two
  parameters \<open>data\<close> and \<open>cSize\<close>).
\<close>

definition FileReader :: "string \<Rightarrow> string \<Rightarrow> byte list \<Rightarrow> uint64 \<Rightarrow> cameraFileReader" where
  "FileReader fld name data cSize =
     \<lparr>fullSize = cSize, offset = 0, closed = False,
      cBuffer = data, cCameraFile_frees = 0\<rparr>"

text \<open>
  The state a reader is in between calls: the offset is within the file, the native
  buffer holds \<open>fullSize\<close> bytes, and the size fits Go's \<open>int\<close>.
\<close>

definition reader_ok :: "cameraFileReader \<Rightarrow> bool" where
  "reader_ok cfr \<longleftrightarrow>
     offset cfr \<le> fullSize cfr \<and> length (cBuffer cfr) = unat (fullSize cfr) \<and>
     unat (fullSize cfr) < 2 ^ 63"

text \<open>A caller's program: a sequence of \<open>Read\<close> and \<open>Close\<close> calls on one reader.\<close>

datatype reader_op = OpRead "byte list" | OpClose

fun run_op :: "cameraFileReader \<Rightarrow> reader_op \<Rightarrow> cameraFileReader option" where
  "run_op cfr (OpRead p) = (case Read cfr p of None \<Rightarrow> None | Some (cfr', _) \<Rightarrow> Some cfr')"
| "run_op cfr OpClose = Some (fst (Close cfr))"

fun run_ops :: "cameraFileReader \<Rightarrow> reader_op list \<Rightarrow> cameraFileReader option" where
  "run_ops cfr [] = Some cfr"
| "run_ops cfr (x # xs) = (case run_op cfr x of None \<Rightarrow> None | Some cfr' \<Rightarrow> run_ops cfr' xs)"

text \<open>
  The number of bytes one \<open>Read\<close> moves when the caller's buffer has \<open>n\<close> bytes.
\<close>

definition chunk :: "cameraFileReader \<Rightarrow> nat \<Rightarrow> nat" where
  "chunk cfr n = min n (min (unat (fullSize cfr) - unat (offset cfr)) fileReaderBufferSize)"

section \<open>The camera session\<close>

text \<open>
  The struct \<open>Camera\<close> holds two opaque native handles. What the Go code can observe
  of them is what the native calls made through them return, so the model of a
  \<open>Camera\<close> is the record of those answers:
  \<^item> \<open>gp_result_as_string\<close>: the message for a result code;
  \<^item> \<open>gp_camera_folder_list_folders\<close>: for a folder, the result code and the
    name/value entries of the \<open>CameraList\<close> the call fills;
  \<^item> \<open>range_order\<close>: Go leaves the order in which \<open>range\<close> visits a map open; this
    is the order chosen for the map built while listing the given folder, as the list
    of keys visited, given the keys in insertion order;
  \<^item> \<open>GP_EVENT_FILE_ADDED\<close>: the value of that constant of \<open>gphoto2.h\<close>;
  \<^item> \<open>gp_camera_wait_for_event\<close>: for a timeout (a C \<open>int\<close>), the event type and
    the payload the call stores (the payload as the name and folder of the
    \<open>C.CameraFilePath\<close> it points to);
  \<^item> \<open>gp_widget_new\<close>: the result code and the pointer stored in \<open>w.widget\<close>;
  \<^item> \<open>gp_camera_get_config\<close>: given the value of \<open>w.widget\<close>, the result code and
    the value of \<open>w.widget\<close> after the call;
  \<^item> \<open>gp_widget_free\<close>: the result code of freeing a widget.
  A native pointer is a number, 0 for \<open>NULL\<close>.
\<close>

type_synonym ptr = nat

datatype go_error = Errorf string

record Camera =
  gp_result_as_string :: "int \<Rightarrow> string"
  gp_camera_folder_list_folders :: "string \<Rightarrow> int \<times> (string \<times> string) list"
  range_order :: "string \<Rightarrow> string list \<Rightarrow> string list"
  GP_EVENT_FILE_ADDED :: int
  gp_camera_wait_for_event :: "int \<Rightarrow> int \<times> (string \<times> string)"
  gp_widget_new :: "int \<times> ptr"
  gp_camera_get_config :: "ptr \<Rightarrow> int \<times> ptr"
  gp_widget_free :: "ptr \<Rightarrow> int"

text \<open>\<open>cameraResultToError\<close>: \<open>nil\<close> for 0, else an error carrying the message.\<close>

definition cameraResultToError :: "Camera \<Rightarrow> int \<Rightarrow> go_error option" where
  "cameraResultToError c err =
     (if err \<noteq> 0 then Some (Errorf (gp_result_as_string c err)) else None)"

subsection \<open>Folder listing\<close>

text \<open>
  \<open>cameraListToMap\<close>: the Go map is an association list with one entry per key;
  \<open>vals[key] = val\<close> is \<open>AList.update\<close>. \<open>C.gp_list_count\<close> is the number of
  entries of the list.
\<close>

definition cameraListToMap :: "(string \<times> string) list \<Rightarrow> (string \<times> string) list \<times> int" where
  "cameraListToMap cameraList =
     (let size = int (length cameraList) in
      if size < 0 then ([], size)
      else (fold (\<lambda>(key, val) vals. AList.update key val vals) cameraList [], 0))"

text \<open>
  \<open>Camera.ListFolders\<close>: the names are the keys of the map in the order \<open>range\<close>
  visits them; on a native failure the result is the empty slice and the error.
\<close>

definition ListFolders :: "Camera \<Rightarrow> string \<Rightarrow> string list \<times> go_error option" where
  "ListFolders c folder =
     (let folder = (if folder = [] then ''/'' else folder);
          (rc, cameraList) = gp_camera_folder_list_folders c folder
      in case cameraResultToError c rc of
           Some err \<Rightarrow> ([], Some err)
         | None \<Rightarrow>
             (let (folderMap, _) = cameraListToMap cameraList;
                  names = range_order c folder (map fst folderMap)
              in (names, None)))"

text \<open>\<open>strings.HasSuffix\<close>\<close>

definition HasSuffix :: "string \<Rightarrow> string \<Rightarrow> bool" where
  "HasSuffix s suffix \<longleftrightarrow>
     length suffix \<le> length s \<and> drop (length s - length suffix) s = suffix"

text \<open>
  \<open>Camera.RListFolders\<close>. Its first lines compute \<open>path\<close>
  (\<open>RListFolders_path\<close>); its loop over \<open>subfolders\<close> is \<open>RListFolders_range\<close>, with
  the recursive call as a parameter. The recursion follows the folders the camera
  reports and need not end, so the function takes fuel, the depth of calls allowed:
  \<open>None\<close> means the fuel ran out.
\<close>

definition RListFolders_path :: "string \<Rightarrow> string" where
  "RListFolders_path folder =
     (let path = folder in if \<not> HasSuffix path ''/'' then path @ ''/'' else path)"

fun RListFolders_range ::
  "(string \<Rightarrow> string list option) \<Rightarrow> string \<Rightarrow> string list \<Rightarrow> string list \<Rightarrow> string list option" where
  "RListFolders_range rec path [] folders = Some folders"
| "RListFolders_range rec path (sub # subfolders) folders =
     (let subPath = path @ sub;
          folders = folders @ [subPath]
      in case rec subPath of
           None \<Rightarrow> None
         | Some r \<Rightarrow> RListFolders_range rec path subfolders (folders @ r))"

fun RListFolders :: "nat \<Rightarrow> Camera \<Rightarrow> string \<Rightarrow> string list option" where
  "RListFolders 0 c folder = None"
| "RListFolders (Suc fuel) c folder =
     (let path = RListFolders_path folder;
          (subfolders, _) = ListFolders c path
      in RListFolders_range (RListFolders fuel c) path subfolders [])"

text \<open>
  The folders the camera reports below \<open>folder\<close> form a tree of fewer than \<open>d\<close>
  levels: \<open>RListFolders\<close> on \<open>folder\<close> makes nested calls at most \<open>d\<close> deep.
\<close>

fun tree_within :: "nat \<Rightarrow> Camera \<Rightarrow> string \<Rightarrow> bool" where
  "tree_within 0 c folder = False"
| "tree_within (Suc d) c folder =
     (let path = RListFolders_path folder in
      \<forall>sub \<in> set (fst (ListFolders c path)). tree_within d c (path @ sub))"

text \<open>
  Two orders for the flattened listing, as specifications to compare the code with.
  \<open>preorder_listing\<close>: each direct subfolder's path, followed at once by the listing of
  that subfolder. \<open>directs_first_listing\<close>: all direct subfolder paths of a folder
  first, then the listings of the subfolders.
\<close>

fun preorder_listing :: "nat \<Rightarrow> Camera \<Rightarrow> string \<Rightarrow> string list" where
  "preorder_listing 0 c folder = []"
| "preorder_listing (Suc d) c folder =
     (let path = RListFolders_path folder in
      concat (map (\<lambda>sub. (path @ sub) # preorder_listing d c (path @ sub))
        (fst (ListFolders c path))))"

fun directs_first_listing :: "nat \<Rightarrow> Camera \<Rightarrow> string \<Rightarrow> string list" where
  "directs_first_listing 0 c folder = []"
| "directs_first_listing (Suc d) c folder =
     (let path = RListFolders_path folder;
          subfolders = fst (ListFolders c path)
      in map (\<lambda>sub. path @ sub) subfolders @
         concat (map (\<lambda>sub. directs_first_listing d c (path @ sub)) subfolders))"

subsection \<open>Waiting for an event\<close>

text \<open>The struct \<open>CameraEvent\<close>; a fresh one (\<open>new(CameraEvent)\<close>) has zero fields.\<close>

record CameraEvent =
  Type :: int
  Folder :: string
  File :: string

definition cCameraEventToGoCameraEvent :: "Camera \<Rightarrow> string \<times> string \<Rightarrow> int \<Rightarrow> CameraEvent" where
  "cCameraEventToGoCameraEvent c voidPtr eventType =
     (let ce = \<lparr>Type = 0, Folder = [], File = []\<rparr>;
          ce = ce\<lparr>Type := eventType\<rparr>
      in if Type ce = GP_EVENT_FILE_ADDED c
         then (let cameraFilePath = voidPtr;
                   ce = ce\<lparr>File := fst cameraFilePath\<rparr>
               in ce\<lparr>Folder := snd cameraFilePath\<rparr>)
         else ce)"

text \<open>
  An unbuffered Go channel with a single sending goroutine is represented by the
  operations that goroutine performs on it, in order. A receive takes the next send;
  from a closed channel it returns at once, any number of times; when the goroutine has
  ended without closing the channel, nobody will ever send or close, and the receive
  blocks forever.
\<close>

datatype 'a chan_op = ChSend 'a | ChClose

datatype 'a received = Received 'a | ChannelClosed | BlocksForever

fun receive :: "'a chan_op list \<Rightarrow> 'a received \<times> 'a chan_op list" where
  "receive [] = (BlocksForever, [])"
| "receive (ChSend v # ops) = (Received v, ops)"
| "receive (ChClose # ops) = (ChannelClosed, ChClose # ops)"

text \<open>
  \<open>C.int(timeout)\<close>: the conversion of a Go \<open>int\<close> to the 32-bit signed \<open>int\<close> of
  C keeps the low 32 bits, read in two's complement.
\<close>

definition C_int :: "int \<Rightarrow> int" where
  "C_int n = sint (word_of_int n :: 32 word)"

text \<open>
  \<open>Camera.AsyncWaitForEvent\<close> makes the channel, starts the goroutine and returns
  the channel. The goroutine calls \<open>C.gp_camera_wait_for_event\<close> with
  \<open>C.int(timeout)\<close> and then performs its one channel operation,
  \<open>ch <- cCameraEventToGoCameraEvent(vp, eventType)\<close>.
\<close>

definition AsyncWaitForEvent :: "Camera \<Rightarrow> int \<Rightarrow> CameraEvent chan_op list" where
  "AsyncWaitForEvent c timeout =
     (let (eventType, vp) = gp_camera_wait_for_event c (C_int timeout)
      in [ChSend (cCameraEventToGoCameraEvent c vp eventType)])"

subsection \<open>The configuration tree\<close>

text \<open>
  The calls that release native memory are recorded in the order they are made.
  \<open>CameraWidget.Free\<close> calls \<open>C.gp_widget_free\<close> and prints a warning when that
  fails; it returns the calls made and the errors printed.
\<close>

datatype native_call = Call_free ptr | Call_gp_widget_free ptr

definition Free :: "Camera \<Rightarrow> ptr \<Rightarrow> native_call list \<times> go_error list" where
  "Free c widget =
     (case cameraResultToError c (gp_widget_free c widget) of
        Some err \<Rightarrow> ([Call_gp_widget_free widget], [err])
      | None \<Rightarrow> ([Call_gp_widget_free widget], []))"

text \<open>
  \<open>Camera.GetConfig\<close> returns the widget (\<open>None\<close> for \<open>nil\<close>) and the error,
  together with the release calls made on \<open>w.widget\<close> and the warnings printed. (The
  C string \<open>p\<close> is allocated and freed on every path and is not part of the model.)
\<close>

definition GetConfig ::
  "Camera \<Rightarrow> (ptr option \<times> go_error option) \<times> native_call list \<times> go_error list" where
  "GetConfig c =
     (let (rc, widget) = gp_widget_new c in
      case cameraResultToError c rc of
        Some err \<Rightarrow> ((None, Some err), [Call_free widget], [])
      | None \<Rightarrow>
          (let (rc, widget) = gp_camera_get_config c widget in
           case cameraResultToError c rc of
             Some err \<Rightarrow> ((None, Some err), Free c widget)
           | None \<Rightarrow> ((Some widget, None), [], [])))"

subsection \<open>Cameras to run the model on\<close>

text \<open>
  A camera whose storage is the tree \<open>/a\<close>, \<open>/a/b\<close>, \<open>/c\<close>, whose next event is a
  new file, and whose configuration can be read.
\<close>

definition example_camera :: Camera where
  "example_camera =
     \<lparr>gp_result_as_string = (\<lambda>rc. ''Unspecified error''),
      gp_camera_folder_list_folders = (\<lambda>folder.
        if folder = ''/'' then (0, [(''a'', ''''), (''c'', '''')])
        else if folder = ''/a/'' then (0, [(''b'', '''')])
        else (0, [])),
      range_order = (\<lambda>folder keys. keys),
      GP_EVENT_FILE_ADDED = 2,
      gp_camera_wait_for_event = (\<lambda>timeout. (2, (''img1.jpg'', ''/a''))),
      gp_widget_new = (0, 100),
      gp_camera_get_config = (\<lambda>widget. (0, widget)),
      gp_widget_free = (\<lambda>widget. 0)\<rparr>"

text \<open>
  The same camera when listing \<open>/a/\<close> fails and \<open>/c\<close> has a subfolder \<open>d\<close>, and
  when reading the configuration fails.
\<close>

definition failing_camera :: Camera where
  "failing_camera =
     example_camera
       \<lparr>gp_camera_folder_list_folders := (\<lambda>folder.
          if folder = ''/'' then (0, [(''a'', ''''), (''c'', '''')])
          else if folder = ''/a/'' then (-1, [])
          else if folder = ''/c/'' then (0, [(''d'', '''')])
          else (0, [])),
        gp_camera_get_config := (\<lambda>widget. (-1, widget))\<rparr>"

section \<open>Properties of the file reader\<close>

lemma sint_small:
  fixes w :: uint64
  assumes "unat w < 2 ^ 63"
  shows "sint w = int (unat w)"
proof -
  have u: "uint w = int (unat w)" by simp
  have "int (unat w) < 2 ^ 63" using assms by (metis of_nat_less_numeral_power_cancel_iff)
  moreover have "- (2 ^ 63) \<le> int (unat w)"
  proof -
    have "- (2 ^ 63) \<le> (0::int)" by simp
    also have "(0::int) \<le> int (unat w)" by (rule of_nat_0_le_iff)
    finally show ?thesis .
  qed
  ultimately have "signed_take_bit 63 (int (unat w)) = int (unat w)"
    by (intro signed_take_bit_int_eq_self)
  then show ?thesis by (simp only: sint_uint u) simp
qed

lemma goSlice_index_in_range:
  assumes len: "length (cBuffer cfr) = unat (fullSize cfr)"
    and small: "unat (fullSize cfr) < 2 ^ 63"
    and k: "unat k < unat (fullSize cfr)"
  shows "goSlice_index cfr k = Some (cBuffer cfr ! unat k)"
proof -
  have "sint (fullSize cfr) = int (unat (fullSize cfr))"
    using small by (rule sint_small)
  moreover have "uint k = int (unat k)" by simp
  moreover have "int (unat k) < int (unat (fullSize cfr))"
    using k by linarith
  ultimately show ?thesis
    using len k by (simp only: goSlice_index_def) simp
qed

lemma unat_inc_below:
  fixes i t :: uint64
  assumes "i < t"
  shows "unat (i + 1) = Suc (unat i)"
proof -
  have "unat i < unat t" using assms by (simp add: word_less_nat_alt)
  moreover have "unat t < 2 ^ 64" using unsigned_less [of t] by simp
  ultimately have "unat i + unat (1 :: uint64) < 2 ^ LENGTH(64)" by simp
  then have "unat (i + 1) = unat i + unat (1 :: uint64)"
    by (simp only: unat_add_lem)
  then show ?thesis by simp
qed

lemma unat_add_below:
  fixes a b c :: uint64
  assumes "unat a + unat b \<le> unat c"
  shows "unat (a + b) = unat a + unat b"
proof -
  have "unat c < 2 ^ 64" using unsigned_less [of c] by simp
  with assms have "unat a + unat b < 2 ^ LENGTH(64)" by simp
  then show ?thesis by (simp only: unat_add_lem)
qed

lemma copy_loop_result:
  assumes "length (cBuffer cfr) = unat (fullSize cfr)"
    and "unat (fullSize cfr) < 2 ^ 63"
    and "unat (offset cfr) + unat toRead \<le> unat (fullSize cfr)"
    and "unat toRead \<le> length p"
    and "i \<le> toRead"
  shows "copy_loop cfr p i toRead =
    Some (take (unat i) p @
          take (unat toRead - unat i) (drop (unat (offset cfr) + unat i) (cBuffer cfr)) @
          drop (unat toRead) p)"
  using assms
proof (induction cfr p i toRead rule: copy_loop.induct)
  case (1 cfr p i toRead)
  note len = "1.prems"(1) and small = "1.prems"(2) and fits = "1.prems"(3)
    and room = "1.prems"(4)
  show ?case
  proof (cases "i < toRead")
    case False
    with "1.prems" have "i = toRead" by simp
    then show ?thesis by (simp add: copy_loop.simps [of cfr p toRead toRead])
  next
    case True
    then have ilt: "unat i < unat toRead" by (simp add: word_less_nat_alt)
    have inc: "unat (i + 1) = Suc (unat i)" using True by (rule unat_inc_below)
    have idx: "unat (offset cfr + i) = unat (offset cfr) + unat i"
      using ilt fits by (intro unat_add_below [of _ _ "fullSize cfr"]) simp
    have inb: "unat (offset cfr) + unat i < length (cBuffer cfr)"
      using ilt fits len by simp
    define c where "c = cBuffer cfr ! (unat (offset cfr) + unat i)"
    have g: "goSlice_index cfr (offset cfr + i) = Some c"
      using goSlice_index_in_range [OF len small, of "offset cfr + i"] inb len
      by (simp add: idx c_def)
    have inp: "unat i < length p" using ilt room by simp
    have step: "copy_loop cfr p i toRead = copy_loop cfr (p[unat i := c]) (i + 1) toRead"
      using True inp g by (simp add: copy_loop.simps [of cfr p i toRead])
    have "i + 1 \<le> toRead" using True by (rule inc_le)
    then have IH: "copy_loop cfr (p[unat i := c]) (i + 1) toRead =
      Some (take (unat (i + 1)) (p[unat i := c]) @
          take (unat toRead - unat (i + 1)) (drop (unat (offset cfr) + unat (i + 1)) (cBuffer cfr)) @
          drop (unat toRead) (p[unat i := c]))"
      using "1.IH" [OF True inp g] len small fits room by simp
    have a: "take (Suc (unat i)) (p[unat i := c]) = take (unat i) p @ [c]"
      using inp by (simp add: take_Suc_conv_app_nth)
    have b: "take (unat toRead - unat i) (drop (unat (offset cfr) + unat i) (cBuffer cfr)) =
       c # take (unat toRead - Suc (unat i)) (drop (Suc (unat (offset cfr) + unat i)) (cBuffer cfr))"
    proof -
      have "drop (unat (offset cfr) + unat i) (cBuffer cfr) =
          c # drop (Suc (unat (offset cfr) + unat i)) (cBuffer cfr)"
        using inb by (simp add: c_def Cons_nth_drop_Suc)
      moreover have "unat toRead - unat i = Suc (unat toRead - Suc (unat i))"
        using ilt by simp
      ultimately show ?thesis by simp
    qed
    have d: "drop (unat toRead) (p[unat i := c]) = drop (unat toRead) p"
      using ilt by simp
    show ?thesis
      by (simp only: step IH inc a b d add_Suc_right) simp
  qed
qed



lemma Read_open_word:
  assumes ok: "reader_ok cfr" and "open": "\<not> closed cfr"
    and n: "n = unat (of_nat (length p) :: uint64)"
  shows "Read cfr p =
     Some (cfr\<lparr>offset := offset cfr + of_nat (chunk cfr n)\<rparr>,
           take (chunk cfr n) (drop (unat (offset cfr)) (cBuffer cfr)) @ drop (chunk cfr n) p,
           int (chunk cfr n),
           if n \<noteq> 0 \<and> unat (offset cfr) + chunk cfr n = unat (fullSize cfr)
           then Some EOF else None)"
proof (cases "n = 0")
  case True
  then have "(of_nat (length p) :: uint64) = 0"
    using n by (simp add: unat_eq_0)
  then show ?thesis using "open" True by (simp add: Read_def chunk_def)
next
  case False
  from ok have le: "offset cfr \<le> fullSize cfr"
    and len: "length (cBuffer cfr) = unat (fullSize cfr)"
    and small: "unat (fullSize cfr) < 2 ^ 63"
    by (simp_all add: reader_ok_def)
  define w :: uint64 where "w = of_nat (length p)"
  define bufLen :: uint64 where "bufLen = of_nat fileReaderBufferSize"
  define remaining where "remaining = fullSize cfr - offset cfr"
  define t1 where "t1 = (if bufLen > remaining then remaining else bufLen)"
  define toRead where "toRead = (if t1 > w then w else t1)"
  have un: "unat w = n"
    by (simp add: n w_def)
  with False have w0: "w \<noteq> 0"
    by (metis unat_0)
  have nle: "n \<le> length p"
    by (simp add: n unat_of_nat)
  have ub: "unat bufLen = fileReaderBufferSize"
    by (simp add: bufLen_def fileReaderBufferSize_def)
  have ur: "unat remaining = unat (fullSize cfr) - unat (offset cfr)"
    unfolding remaining_def using le by (rule unat_sub)
  have ut1: "unat t1 = min (unat remaining) (unat bufLen)"
    by (simp add: t1_def word_less_nat_alt min_def)
  have ut: "unat toRead = chunk cfr n"
    by (simp add: toRead_def word_less_nat_alt ut1 un ub ur chunk_def min_def)
  have ole: "unat (offset cfr) \<le> unat (fullSize cfr)"
    using le by (simp add: word_le_nat_alt)
  have fits: "unat (offset cfr) + unat toRead \<le> unat (fullSize cfr)"
    using ole by (simp add: ut chunk_def)
  have room: "unat toRead \<le> length p"
    using nle by (simp add: ut chunk_def)
  have cl: "copy_loop cfr p 0 toRead =
      Some (take (chunk cfr n) (drop (unat (offset cfr)) (cBuffer cfr)) @ drop (chunk cfr n) p)"
    using copy_loop_result [OF len small fits room, of 0] by (simp add: ut)
  have tw: "toRead = of_nat (chunk cfr n)"
    using ut by (metis of_nat_unat ucast_id)
  have "unat toRead < 2 ^ 63"
    using fits small by simp
  then have st: "sint toRead = int (chunk cfr n)"
    using sint_small [of toRead] ut by simp
  have uo: "unat (offset cfr + toRead) = unat (offset cfr) + chunk cfr n"
    using unat_add_below [OF fits] ut by simp
  have lt: "offset cfr + toRead < fullSize cfr \<longleftrightarrow>
      unat (offset cfr) + chunk cfr n \<noteq> unat (fullSize cfr)"
    using fits by (simp add: word_less_nat_alt uo ut) arith
  have "Read cfr p =
     (case copy_loop cfr p 0 toRead of
        None \<Rightarrow> None
      | Some p' \<Rightarrow>
          if offset cfr + toRead < fullSize cfr
          then Some (cfr\<lparr>offset := offset cfr + toRead\<rparr>, p', sint toRead, None)
          else Some (cfr\<lparr>offset := offset cfr + toRead\<rparr>, p', sint toRead, Some EOF))"
    using "open" w0
    unfolding Read_def Let_def toRead_def t1_def remaining_def bufLen_def w_def
    by (simp cong: option.case_cong)
  also have "\<dots> = Some (cfr\<lparr>offset := offset cfr + of_nat (chunk cfr n)\<rparr>,
           take (chunk cfr n) (drop (unat (offset cfr)) (cBuffer cfr)) @ drop (chunk cfr n) p,
           int (chunk cfr n),
           if n \<noteq> 0 \<and> unat (offset cfr) + chunk cfr n = unat (fullSize cfr)
           then Some EOF else None)"
    using False by (simp add: cl lt st) (simp add: tw)
  finally show ?thesis .
qed

lemma Read_open:
  assumes ok: "reader_ok cfr" and "open": "\<not> closed cfr" and plen: "length p < 2 ^ 63"
  shows "Read cfr p =
     Some (cfr\<lparr>offset := offset cfr + of_nat (chunk cfr (length p))\<rparr>,
           take (chunk cfr (length p)) (drop (unat (offset cfr)) (cBuffer cfr)) @
             drop (chunk cfr (length p)) p,
           int (chunk cfr (length p)),
           if p \<noteq> [] \<and> unat (offset cfr) + chunk cfr (length p) = unat (fullSize cfr)
           then Some EOF else None)"
proof -
  have "length p < 2 ^ 64"
    using plen by (rule less_trans) simp
  then have "length p = unat (of_nat (length p) :: uint64)"
    by (simp add: unat_of_nat)
  from Read_open_word [OF ok "open" this] show ?thesis by simp
qed

lemma offset_after_chunk:
  assumes ok: "reader_ok cfr"
  shows "unat (offset cfr + of_nat (chunk cfr n)) = unat (offset cfr) + chunk cfr n"
proof -
  from ok have ole: "unat (offset cfr) \<le> unat (fullSize cfr)"
    by (simp add: reader_ok_def word_le_nat_alt)
  have "unat (fullSize cfr) < 2 ^ 64"
    using unsigned_less [of "fullSize cfr"] by simp
  moreover have "chunk cfr n \<le> unat (fullSize cfr)"
    by (simp add: chunk_def)
  ultimately have "chunk cfr n < 2 ^ 64"
    by (rule le_less_trans [rotated])
  then have c: "unat (of_nat (chunk cfr n) :: uint64) = chunk cfr n"
    by (simp add: unat_of_nat)
  have "unat (offset cfr) + chunk cfr n \<le> unat (fullSize cfr)"
    using ole by (simp add: chunk_def)
  then have "unat (offset cfr) + unat (of_nat (chunk cfr n) :: uint64) \<le> unat (fullSize cfr)"
    by (simp only: c)
  from unat_add_below [OF this] show ?thesis by (simp only: c)
qed

lemma Read_step_invariant:
  assumes ok: "reader_ok cfr"
  shows "\<exists>cfr' p' k err. Read cfr p = Some (cfr', p', k, err) \<and> reader_ok cfr' \<and>
     offset cfr \<le> offset cfr' \<and> fullSize cfr' = fullSize cfr \<and> closed cfr' = closed cfr"
proof (cases "closed cfr")
  case True
  then show ?thesis using ok by (simp add: Read_def)
next
  case False
  define n where "n = unat (of_nat (length p) :: uint64)"
  from ok have ole: "unat (offset cfr) \<le> unat (fullSize cfr)"
    by (simp add: reader_ok_def word_le_nat_alt)
  have "unat (offset cfr) + chunk cfr n \<le> unat (fullSize cfr)"
    using ole by (simp add: chunk_def)
  then have "reader_ok (cfr\<lparr>offset := offset cfr + of_nat (chunk cfr n)\<rparr>)"
    using ok by (simp add: reader_ok_def word_le_nat_alt offset_after_chunk [OF ok])
  moreover have "offset cfr \<le> offset cfr + of_nat (chunk cfr n)"
    by (simp add: word_le_nat_alt offset_after_chunk [OF ok])
  ultimately show ?thesis
    by (simp add: Read_open_word [OF ok False n_def])
qed

lemma Close_step_invariant:
  assumes ok: "reader_ok cfr"
  shows "reader_ok (fst (Close cfr)) \<and> offset (fst (Close cfr)) = offset cfr \<and>
     fullSize (fst (Close cfr)) = fullSize cfr \<and> closed (fst (Close cfr))"
  using ok by (simp add: Close_def reader_ok_def)

lemma run_op_invariant:
  assumes ok: "reader_ok cfr"
  shows "\<exists>cfr'. run_op cfr x = Some cfr' \<and> reader_ok cfr' \<and>
     offset cfr \<le> offset cfr' \<and> fullSize cfr' = fullSize cfr \<and> (closed cfr \<longrightarrow> closed cfr')"
proof (cases x)
  case (OpRead p)
  from Read_step_invariant [OF ok, of p] show ?thesis
    by (auto simp: OpRead)
next
  case OpClose
  from Close_step_invariant [OF ok] show ?thesis
    by (simp add: OpClose)
qed

lemma run_ops_invariant:
  assumes "reader_ok cfr"
  shows "\<exists>cfr'. run_ops cfr ops = Some cfr' \<and> reader_ok cfr' \<and>
     offset cfr \<le> offset cfr' \<and> fullSize cfr' = fullSize cfr \<and> (closed cfr \<longrightarrow> closed cfr')"
  using assms
proof (induction ops arbitrary: cfr)
  case Nil
  then show ?case by simp
next
  case (Cons x xs)
  from run_op_invariant [OF Cons.prems, of x] obtain c1 where
    c1: "run_op cfr x = Some c1" "reader_ok c1" "offset cfr \<le> offset c1"
      "fullSize c1 = fullSize cfr" "closed cfr \<longrightarrow> closed c1"
    by blast
  from Cons.IH [OF c1(2)] obtain c2 where
    c2: "run_ops c1 xs = Some c2" "reader_ok c2" "offset c1 \<le> offset c2"
      "fullSize c2 = fullSize c1" "closed c1 \<longrightarrow> closed c2"
    by blast
  from c1 c2 show ?case by auto
qed

lemma run_ops_closed:
  assumes "closed cfr"
  shows "run_ops cfr ops = Some cfr"
  using assms
proof (induction ops)
  case Nil
  then show ?case by simp
next
  case (Cons x xs)
  then have "run_op cfr x = Some cfr"
    by (cases x) (simp_all add: Read_def Close_def)
  with Cons show ?case by simp
qed


lemma run_ops_reads_exhausted:
  assumes ok: "reader_ok cfr" and "open": "\<not> closed cfr" and at_end: "offset cfr = fullSize cfr"
  shows "run_ops cfr (map OpRead ps) = Some cfr"
proof (induction ps)
  case Nil
  show ?case by simp
next
  case (Cons p ps)
  have "chunk cfr n = 0" for n
    using at_end by (simp add: chunk_def)
  then have "Read cfr p = Some (cfr, p, 0,
      if unat (of_nat (length p) :: uint64) \<noteq> 0 then Some EOF else None)"
    using Read_open_word [OF ok "open" refl, of p] at_end by simp
  then show ?case using Cons by simp
qed

text \<open>
  Claim C1. On a reader that is not closed, \<open>Read\<close> returns and copies
  \<open>min(len(buffer), fullSize - offset, 1 MiB)\<close> bytes: the count returned is that
  minimum, the offset advances by it, the caller's buffer receives that many bytes of
  the file from the old offset on (the rest of the buffer is untouched), and the count
  never exceeds the remaining bytes. The reader is in a state \<open>reader_ok\<close> and the
  buffer is a Go slice (its length fits \<open>int\<close>).
\<close>

theorem Read_count_is_min:
  assumes "reader_ok cfr" and "\<not> closed cfr" and "length p < 2 ^ 63"
    and "k = min (length p) (min (unat (fullSize cfr) - unat (offset cfr)) 1048576)"
  shows "(\<exists>cfr' p' err. Read cfr p = Some (cfr', p', int k, err) \<and>
            unat (offset cfr') = unat (offset cfr) + k \<and>
            p' = take k (drop (unat (offset cfr)) (cBuffer cfr)) @ drop k p) \<and>
         k \<le> unat (fullSize cfr) - unat (offset cfr)"
proof -
  have k: "k = chunk cfr (length p)"
    using assms(4) by (simp add: chunk_def fileReaderBufferSize_def)
  have "k \<le> unat (fullSize cfr) - unat (offset cfr)"
    using assms(4) by simp
  then show ?thesis
    using Read_open [OF assms(1-3)] offset_after_chunk [OF assms(1), of "length p"]
    by (simp add: k)
qed

theorem Read_count_is_min_witness:
  "reader_ok (FileReader ''/store'' ''a.jpg'' [1, 2, 3, 4, 5] 5) \<and>
   \<not> closed (FileReader ''/store'' ''a.jpg'' [1, 2, 3, 4, 5] 5) \<and>
   length [0, 0, 0 :: byte] < 2 ^ 63 \<and>
   (\<exists>cfr' err. Read (FileReader ''/store'' ''a.jpg'' [1, 2, 3, 4, 5] 5) [0, 0, 0] =
      Some (cfr', [1, 2, 3], 3, err) \<and> unat (offset cfr') = 3)"
proof -
  have h1: "reader_ok (FileReader ''/store'' ''a.jpg'' [1, 2, 3, 4, 5] 5)"
    by (simp add: reader_ok_def FileReader_def)
  have h2: "\<not> closed (FileReader ''/store'' ''a.jpg'' [1, 2, 3, 4, 5] 5)"
    by (simp add: FileReader_def)
  have h3: "length [0, 0, 0 :: byte] < 2 ^ 63"
    by simp
  have h4: "(3 :: nat) = min (length [0, 0, 0 :: byte])
      (min (unat (fullSize (FileReader ''/store'' ''a.jpg'' [1, 2, 3, 4, 5] 5)) -
            unat (offset (FileReader ''/store'' ''a.jpg'' [1, 2, 3, 4, 5] 5))) 1048576)"
    by (simp add: FileReader_def)
  from Read_count_is_min [OF h1 h2 h3 h4] h1 h2 h3 show ?thesis
    by (simp add: FileReader_def)
qed

text \<open>
  Claim C2, as stated, fails for an empty buffer: on an open reader whose offset is
  already \<open>fullSize\<close>, \<open>Read\<close> with a zero-length buffer takes the \<open>n == 0\<close>
  return and reports no error at all.
\<close>

theorem Read_empty_at_end_counterexample:
  "reader_ok \<lparr>fullSize = 2, offset = 2,
      closed = False, cBuffer = [1, 2], cCameraFile_frees = 0\<rparr> \<and>
   \<not> closed \<lparr>fullSize = 2, offset = 2,
      closed = False, cBuffer = [1, 2], cCameraFile_frees = 0\<rparr> \<and>
   Read \<lparr>fullSize = 2, offset = 2,
      closed = False, cBuffer = [1, 2], cCameraFile_frees = 0\<rparr> [] =
     Some (\<lparr>fullSize = 2, offset = 2,
      closed = False, cBuffer = [1, 2], cCameraFile_frees = 0\<rparr>, [], 0, None)"
  by (simp add: Read_def reader_ok_def)

text \<open>
  Claim C2, amended to non-empty buffers. On an open reader, \<open>Read\<close> with a
  non-empty buffer returns \<open>io.EOF\<close> exactly when the offset equals \<open>fullSize\<close>
  after the copy, in the same result that carries the byte count, and \<open>nil\<close>
  otherwise; once the offset equals \<open>fullSize\<close>, such a \<open>Read\<close> returns 0 bytes
  and \<open>io.EOF\<close> and changes neither the reader nor the buffer, and no sequence of
  reads moves the reader out of that state.
\<close>

theorem Read_EOF_nonempty:
  assumes "reader_ok cfr" and "\<not> closed cfr" and "p \<noteq> []" and "length p < 2 ^ 63"
  shows "\<exists>cfr' p' k err. Read cfr p = Some (cfr', p', k, err) \<and>
     (err = Some EOF \<longleftrightarrow> offset cfr' = fullSize cfr') \<and>
     (err = None \<longleftrightarrow> offset cfr' \<noteq> fullSize cfr') \<and>
     (offset cfr = fullSize cfr \<longrightarrow>
        cfr' = cfr \<and> p' = p \<and> k = 0 \<and> err = Some EOF \<and>
        (\<forall>ps. run_ops cfr (map OpRead ps) = Some cfr))"
proof -
  define c where "c = chunk cfr (length p)"
  have uo: "unat (offset cfr + of_nat c) = unat (offset cfr) + c"
    unfolding c_def by (rule offset_after_chunk [OF assms(1)])
  have eq: "offset cfr + of_nat c = fullSize cfr \<longleftrightarrow> unat (offset cfr) + c = unat (fullSize cfr)"
    using uo by (metis word_unat_eq_iff)
  have z: "offset cfr = fullSize cfr \<Longrightarrow> c = 0"
    by (simp add: c_def chunk_def)
  have r: "offset cfr = fullSize cfr \<Longrightarrow> run_ops cfr (map OpRead ps) = Some cfr" for ps
    by (rule run_ops_reads_exhausted [OF assms(1,2)])
  show ?thesis
    using Read_open [OF assms(1,2,4)] assms(3) eq z r
    by (auto simp: c_def [symmetric])
qed


theorem Read_EOF_nonempty_witness:
  "reader_ok \<lparr>fullSize = 2, offset = 2,
      closed = False, cBuffer = [1, 2], cCameraFile_frees = 0\<rparr> \<and>
   [7 :: byte] \<noteq> [] \<and> length [7 :: byte] < 2 ^ 63 \<and>
   Read \<lparr>fullSize = 2, offset = 2,
      closed = False, cBuffer = [1, 2], cCameraFile_frees = 0\<rparr> [7] =
     Some (\<lparr>fullSize = 2, offset = 2,
      closed = False, cBuffer = [1, 2], cCameraFile_frees = 0\<rparr>, [7], 0, Some EOF) \<and>
   run_ops \<lparr>fullSize = 2, offset = 2,
      closed = False, cBuffer = [1, 2], cCameraFile_frees = 0\<rparr> (map OpRead [[7], [], [7, 7]]) =
     Some \<lparr>fullSize = 2, offset = 2,
      closed = False, cBuffer = [1, 2], cCameraFile_frees = 0\<rparr>"
proof -
  define X where "X = \<lparr>fullSize = 2, offset = 2,
      closed = False, cBuffer = [1 :: byte, 2], cCameraFile_frees = 0\<rparr>"
  have h1: "reader_ok X"
    by (simp add: reader_ok_def X_def)
  have h2: "\<not> closed X"
    by (simp add: X_def)
  have h3: "[7 :: byte] \<noteq> []"
    by simp
  have h4: "length [7 :: byte] < 2 ^ 63"
    by simp
  have e: "offset X = fullSize X"
    by (simp add: X_def)
  from Read_EOF_nonempty [OF h1 h2 h3 h4] e
  have a: "Read X [7] = Some (X, [7], 0, Some EOF)"
    and b: "\<forall>ps. run_ops X (map OpRead ps) = Some X"
    by auto
  from b have "run_ops X (map OpRead [[7], [], [7, 7]]) = Some X"
    by (rule spec)
  with a h1 h3 h4 show ?thesis
    unfolding X_def by blast
qed

text \<open>
  Claim C6. After \<open>Close\<close>, and after any further calls, every \<open>Read\<close> fails with
  \<open>io.ErrClosedPipe\<close>, returns 0, and leaves the caller's buffer, the offset and the
  whole reader as they were.
\<close>

theorem Read_after_Close:
  "\<exists>r. run_ops (fst (Close cfr)) ops = Some r \<and> closed r \<and> offset r = offset cfr \<and>
     Read r p = Some (r, p, 0, Some ErrClosedPipe)"
proof -
  have c: "closed (fst (Close cfr))"
    by (simp add: Close_def)
  have "offset (fst (Close cfr)) = offset cfr"
    by (simp add: Close_def)
  moreover have "Read (fst (Close cfr)) p = Some (fst (Close cfr), p, 0, Some ErrClosedPipe)"
    using c by (simp add: Read_def)
  ultimately show ?thesis
    using c run_ops_closed [OF c, of ops] by simp
qed

text \<open>
  Claim C7. The first \<open>Close\<close> of an open reader calls \<open>C.gp_file_free\<close> once, sets
  \<open>closed\<close> and returns \<open>nil\<close>; a second \<open>Close\<close> changes nothing and returns
  \<open>nil\<close>; and after any further sequence of calls the file object has still been
  freed exactly once.
\<close>

theorem Close_idempotent:
  assumes "\<not> closed cfr"
  shows "Close cfr = (cfr\<lparr>cCameraFile_frees := cCameraFile_frees cfr + 1, closed := True\<rparr>, None) \<and>
     Close (fst (Close cfr)) = (fst (Close cfr), None) \<and>
     (\<exists>r. run_ops (fst (Close cfr)) ops = Some r \<and> closed r \<and>
        cCameraFile_frees r = cCameraFile_frees cfr + 1 \<and> Close r = (r, None))"
proof -
  have c: "closed (fst (Close cfr))"
    by (simp add: Close_def)
  have "Close (fst (Close cfr)) = (fst (Close cfr), None)"
    using c by (simp add: Close_def)
  moreover have "Close cfr =
      (cfr\<lparr>cCameraFile_frees := cCameraFile_frees cfr + 1, closed := True\<rparr>, None)"
    using assms by (simp add: Close_def)
  ultimately show ?thesis
    using run_ops_closed [OF c, of ops] by simp
qed

theorem Close_idempotent_witness:
  "\<not> closed (FileReader ''/store'' ''a.jpg'' [1, 2] 2) \<and>
   cCameraFile_frees (fst (Close (FileReader ''/store'' ''a.jpg'' [1, 2] 2))) = 1 \<and>
   Close (fst (Close (FileReader ''/store'' ''a.jpg'' [1, 2] 2))) =
     (fst (Close (FileReader ''/store'' ''a.jpg'' [1, 2] 2)), None) \<and>
   (\<exists>r. run_ops (FileReader ''/store'' ''a.jpg'' [1, 2] 2) [OpClose, OpClose, OpRead [0], OpClose]
        = Some r \<and> cCameraFile_frees r = 1)"
proof -
  have h: "\<not> closed (FileReader ''/store'' ''a.jpg'' [1, 2] 2)"
    by (simp add: FileReader_def)
  from Close_idempotent [OF h, of "[OpClose, OpRead [0], OpClose]"] h show ?thesis
    by (simp add: FileReader_def Close_def Read_def)
qed

text \<open>
  Claim C8. From a reader just opened (offset 0) over a native buffer of \<open>cSize\<close>
  bytes, run any calls \<open>ops1\<close> and then any calls \<open>ops2\<close>: no call panics, the
  offset stays within \<open>fullSize\<close> at both points, the offset after \<open>ops2\<close> is not
  below the one before, \<open>fullSize\<close> is still \<open>cSize\<close>, and a reader that was closed
  stays closed.
\<close>

theorem reader_invariant:
  assumes "length data = unat cSize" and "unat cSize < 2 ^ 63"
  shows "\<exists>r1 r2. run_ops (FileReader fld name data cSize) ops1 = Some r1 \<and>
     run_ops r1 ops2 = Some r2 \<and>
     offset r1 \<le> fullSize r1 \<and> offset r2 \<le> fullSize r2 \<and> offset r1 \<le> offset r2 \<and>
     fullSize r1 = cSize \<and> fullSize r2 = cSize \<and> (closed r1 \<longrightarrow> closed r2)"
proof -
  have ok: "reader_ok (FileReader fld name data cSize)"
    using assms by (simp add: reader_ok_def FileReader_def)
  from run_ops_invariant [OF ok, of ops1] obtain r1 where
    r1: "run_ops (FileReader fld name data cSize) ops1 = Some r1" "reader_ok r1"
      "fullSize r1 = fullSize (FileReader fld name data cSize)"
    by blast
  from run_ops_invariant [OF r1(2), of ops2] obtain r2 where
    r2: "run_ops r1 ops2 = Some r2" "reader_ok r2" "offset r1 \<le> offset r2"
      "fullSize r2 = fullSize r1" "closed r1 \<longrightarrow> closed r2"
    by blast
  have "fullSize (FileReader fld name data cSize) = cSize"
    by (simp add: FileReader_def)
  with r1 r2 show ?thesis
    by (auto simp: reader_ok_def)
qed

theorem reader_invariant_witness:
  "length [1, 2, 3 :: byte] = unat (3 :: uint64) \<and> unat (3 :: uint64) < 2 ^ 63 \<and>
   (\<exists>r1 r2. run_ops (FileReader ''/store'' ''a.jpg'' [1, 2, 3] 3) [OpRead [0, 0], OpClose] = Some r1 \<and>
      run_ops r1 [OpRead [0], OpClose] = Some r2 \<and>
      offset r1 = 2 \<and> offset r2 = 2 \<and> fullSize r2 = 3 \<and> closed r1 \<and> closed r2)"
proof -
  have h1: "length [1, 2, 3 :: byte] = unat (3 :: uint64)"
    by simp
  have h2: "unat (3 :: uint64) < 2 ^ 63"
    by simp
  have a: "run_ops (FileReader ''/store'' ''a.jpg'' [1, 2, 3] 3) [OpRead [0, 0], OpClose] =
      Some ((FileReader ''/store'' ''a.jpg'' [1, 2, 3] 3)
        \<lparr>offset := 2, closed := True, cCameraFile_frees := 1\<rparr>)"
    by (simp add: Read_def Close_def FileReader_def fileReaderBufferSize_def Let_def
        copy_loop.simps goSlice_index_def)
  from reader_invariant [OF h1 h2, of "''/store''" "''a.jpg''" "[OpRead [0, 0], OpClose]"
      "[OpRead [0], OpClose]"] a h1 h2
  show ?thesis
    by (simp add: Read_def Close_def FileReader_def)
qed

text \<open>
  Claim C10. On a reader that is not closed, \<open>Read\<close> with a zero-length buffer
  returns 0 and \<open>nil\<close> and leaves the reader unchanged, whatever the offset is (also
  when it equals \<open>fullSize\<close>: no \<open>io.EOF\<close>).
\<close>

theorem Read_empty_buffer:
  assumes "\<not> closed cfr"
  shows "Read cfr [] = Some (cfr, [], 0, None)"
  using assms by (simp add: Read_def)

theorem Read_empty_buffer_witness:
  "\<not> closed ((FileReader ''/store'' ''a.jpg'' [] 0)) \<and>
   offset (FileReader ''/store'' ''a.jpg'' [] 0) = fullSize (FileReader ''/store'' ''a.jpg'' [] 0) \<and>
   Read (FileReader ''/store'' ''a.jpg'' [] 0) [] = Some (FileReader ''/store'' ''a.jpg'' [] 0, [], 0, None)"
proof -
  have h: "\<not> closed ((FileReader ''/store'' ''a.jpg'' [] 0))"
    by (simp add: FileReader_def)
  from Read_empty_buffer [OF h] h show ?thesis
    by (simp add: FileReader_def)
qed

section \<open>Properties of the recursive folder listing\<close>

lemma RListFolders_range_all:
  assumes "\<forall>sub \<in> set subfolders. rec (path @ sub) = Some (f (path @ sub))"
  shows "RListFolders_range rec path subfolders folders =
     Some (folders @ concat (map (\<lambda>sub. (path @ sub) # f (path @ sub)) subfolders))"
  using assms by (induction subfolders arbitrary: folders) (simp_all add: Let_def)

lemma RListFolders_enough_fuel:
  assumes "tree_within d c folder" and "d \<le> fuel"
  shows "RListFolders fuel c folder = Some (preorder_listing d c folder)"
  using assms
proof (induction d arbitrary: fuel folder)
  case 0
  then show ?case by simp
next
  case (Suc d)
  from Suc.prems(2) obtain fuel' where fuel: "fuel = Suc fuel'" and le: "d \<le> fuel'"
    by (cases fuel) simp_all
  define path where "path = RListFolders_path folder"
  define subfolders where "subfolders = fst (ListFolders c path)"
  have "\<forall>sub \<in> set subfolders. tree_within d c (path @ sub)"
    using Suc.prems(1) by (simp add: path_def subfolders_def Let_def)
  then have "\<forall>sub \<in> set subfolders.
      RListFolders fuel' c (path @ sub) = Some (preorder_listing d c (path @ sub))"
    using Suc.IH le by blast
  from RListFolders_range_all [of subfolders "RListFolders fuel' c" path
      "preorder_listing d c", OF this, of "[]"]
  show ?case
    by (simp add: fuel path_def subfolders_def Let_def split_beta)
qed

lemma preorder_listing_parent:
  assumes "p \<in> set (preorder_listing d c folder)"
  shows "\<exists>parent sub. p = RListFolders_path parent @ sub \<and>
     (parent = folder \<or> parent \<in> set (preorder_listing d c folder)) \<and>
     sub \<in> set (fst (ListFolders c (RListFolders_path parent)))"
  using assms
proof (induction d arbitrary: folder)
  case 0
  then show ?case by simp
next
  case (Suc d)
  define path where "path = RListFolders_path folder"
  define subfolders where "subfolders = fst (ListFolders c path)"
  from Suc.prems obtain sub where sub: "sub \<in> set subfolders"
    and p: "p = path @ sub \<or> p \<in> set (preorder_listing d c (path @ sub))"
    by (auto simp: path_def subfolders_def Let_def)
  have here: "path @ sub \<in> set (preorder_listing (Suc d) c folder)"
    using sub by (auto simp: path_def subfolders_def Let_def)
  have below: "set (preorder_listing d c (path @ sub)) \<subseteq> set (preorder_listing (Suc d) c folder)"
    using sub by (auto simp: path_def subfolders_def Let_def)
  from p show ?case
  proof
    assume "p = path @ sub"
    then show ?thesis
      using sub unfolding path_def subfolders_def by blast
  next
    assume "p \<in> set (preorder_listing d c (path @ sub))"
    from Suc.IH [OF this] obtain parent s where
      ps: "p = RListFolders_path parent @ s"
        "parent = path @ sub \<or> parent \<in> set (preorder_listing d c (path @ sub))"
        "s \<in> set (fst (ListFolders c (RListFolders_path parent)))"
      by blast
    from ps(2) here below have "parent \<in> set (preorder_listing (Suc d) c folder)"
      by blast
    with ps show ?thesis by blast
  qed
qed

lemma RListFolders_path_separator:
  "HasSuffix (RListFolders_path folder) ''/'' \<and>
   (HasSuffix folder ''/'' \<longrightarrow> RListFolders_path folder = folder) \<and>
   (\<not> HasSuffix folder ''/'' \<longrightarrow> RListFolders_path folder = folder @ ''/'' \<and>
      \<not> HasSuffix (RListFolders_path folder) ''//'')"
proof -
  have a: "HasSuffix (folder @ ''/'') ''/''"
    by (simp add: HasSuffix_def)
  have b: "\<not> HasSuffix (folder @ ''/'') ''//''" if "\<not> HasSuffix folder ''/''"
  proof
    assume "HasSuffix (folder @ ''/'') ''//''"
    then have l: "1 \<le> length folder" and d: "drop (length folder - 1) (folder @ ''/'') = ''//''"
      by (simp_all add: HasSuffix_def)
    from l d have "drop (length folder - 1) folder = ''/''"
      by simp
    with l have "HasSuffix folder ''/''"
      by (simp add: HasSuffix_def)
    with that show False ..
  qed
  show ?thesis
    using a b by (simp add: RListFolders_path_def)
qed


lemma ListFolders_error_empty:
  assumes "snd (ListFolders c f) \<noteq> None"
  shows "fst (ListFolders c f) = []"
proof -
  define g where "g = (if f = [] then ''/'' else f)"
  show ?thesis
    using assms unfolding ListFolders_def Let_def g_def [symmetric]
    by (cases "cameraResultToError c (fst (gp_camera_folder_list_folders c g))")
      (simp_all add: split_beta)
qed

lemma preorder_listing_failed:
  assumes "snd (ListFolders c (RListFolders_path f)) \<noteq> None"
  shows "preorder_listing k c f = []"
  using ListFolders_error_empty [OF assms] by (cases k) (simp_all add: Let_def)

text \<open>
  Claim C4, as stated, fails: the code does not append all direct subfolder paths of a
  folder before it recurses. On the tree \<open>/a\<close>, \<open>/a/b\<close>, \<open>/c\<close> the listing of
  \<open>/\<close> is \<open>/a\<close>, \<open>/a/b\<close>, \<open>/c\<close>: the direct subfolder \<open>/c\<close> is appended after the
  recursion into \<open>/a\<close>; the order with all direct subfolders first would be \<open>/a\<close>,
  \<open>/c\<close>, \<open>/a/b\<close>.
\<close>

theorem RListFolders_directs_first_counterexample:
  "tree_within 3 example_camera ''/'' \<and>
   RListFolders 3 example_camera ''/'' = Some [''/a'', ''/a/b'', ''/c''] \<and>
   directs_first_listing 3 example_camera ''/'' = [''/a'', ''/c'', ''/a/b''] \<and>
   RListFolders 3 example_camera ''/'' \<noteq> Some (directs_first_listing 3 example_camera ''/'')"
  by (simp add: example_camera_def ListFolders_def cameraResultToError_def cameraListToMap_def
      RListFolders_path_def HasSuffix_def numeral_3_eq_3)

text \<open>
  Claim C4, amended. When the folders below \<open>folder\<close> form a tree that the fuel
  covers, \<open>RListFolders\<close> returns the pre-order listing: each direct subfolder's path,
  followed at once by the listing of that subfolder, then the next direct subfolder.
  Every path produced is the separator-terminated \<open>path\<close> of its parent (the input
  folder or a path produced) followed by a name listed for that parent; and \<open>path\<close>
  always ends with a separator, is the folder itself when that already ends with one,
  and otherwise is the folder with one separator appended, never two.
\<close>

theorem RListFolders_preorder:
  assumes "tree_within d c folder" and "d \<le> fuel"
  shows "RListFolders fuel c folder = Some (preorder_listing d c folder) \<and>
     (\<forall>p \<in> set (preorder_listing d c folder). \<exists>parent sub.
        p = RListFolders_path parent @ sub \<and>
        (parent = folder \<or> parent \<in> set (preorder_listing d c folder)) \<and>
        sub \<in> set (fst (ListFolders c (RListFolders_path parent)))) \<and>
     (\<forall>f. HasSuffix (RListFolders_path f) ''/'' \<and>
        (HasSuffix f ''/'' \<longrightarrow> RListFolders_path f = f) \<and>
        (\<not> HasSuffix f ''/'' \<longrightarrow> RListFolders_path f = f @ ''/'' \<and>
           \<not> HasSuffix (RListFolders_path f) ''//''))"
  using RListFolders_enough_fuel [OF assms] preorder_listing_parent [of _ d c folder]
    RListFolders_path_separator
  by blast

theorem RListFolders_preorder_witness:
  "tree_within 3 example_camera [] \<and> (3 :: nat) \<le> 4 \<and>
   RListFolders 4 example_camera [] = Some [''/a'', ''/a/b'', ''/c''] \<and>
   \<not> HasSuffix ''/a'' ''/'' \<and> RListFolders_path ''/a'' = ''/a/'' \<and>
   HasSuffix ''/a/'' ''/'' \<and> RListFolders_path ''/a/'' = ''/a/''"
proof -
  have h1: "tree_within 3 example_camera []"
    by (simp add: example_camera_def ListFolders_def cameraResultToError_def cameraListToMap_def
        RListFolders_path_def HasSuffix_def numeral_3_eq_3)
  have h2: "(3 :: nat) \<le> 4"
    by simp
  have l: "preorder_listing 3 example_camera [] = [''/a'', ''/a/b'', ''/c'']"
    by (simp add: example_camera_def ListFolders_def cameraResultToError_def cameraListToMap_def
        RListFolders_path_def HasSuffix_def numeral_3_eq_3)
  have s1: "\<not> HasSuffix ''/a'' ''/''" and s2: "HasSuffix ''/a/'' ''/''"
    by (simp_all add: HasSuffix_def)
  note t = RListFolders_preorder [OF h1 h2]
  from t have "RListFolders 4 example_camera [] = Some (preorder_listing 3 example_camera [])"
    by (rule conjunct1)
  moreover from t s1 have "RListFolders_path ''/a'' = ''/a'' @ ''/''"
    by blast
  moreover from t s2 have "RListFolders_path ''/a/'' = ''/a/''"
    by blast
  ultimately show ?thesis
    using h1 h2 l s1 s2 by simp
qed

text \<open>
  Claim C5. \<open>RListFolders\<close> has no error result. On a tree that the fuel covers it
  returns a list, whatever levels fail: a direct subfolder whose listing fails
  contributes its own path and nothing below it, the subfolders after it are still
  traversed, and a folder whose own listing fails yields the empty list.
\<close>

theorem RListFolders_swallows_errors:
  assumes "tree_within d c folder" and "d \<le> fuel"
  shows "RListFolders fuel c folder =
       Some (concat (map
         (\<lambda>sub. (RListFolders_path folder @ sub) #
            (if snd (ListFolders c (RListFolders_path (RListFolders_path folder @ sub))) \<noteq> None
             then [] else preorder_listing (d - 1) c (RListFolders_path folder @ sub)))
         (fst (ListFolders c (RListFolders_path folder))))) \<and>
     (snd (ListFolders c (RListFolders_path folder)) \<noteq> None \<longrightarrow>
        RListFolders fuel c folder = Some [])"
proof -
  from assms(1) obtain d' where d: "d = Suc d'"
    by (cases d) simp_all
  have eq: "(if snd (ListFolders c (RListFolders_path f)) \<noteq> None then []
       else preorder_listing d' c f) = preorder_listing d' c f" for f
    using preorder_listing_failed [of c f d'] by simp
  have r: "RListFolders fuel c folder = Some (preorder_listing d c folder)"
    by (rule RListFolders_enough_fuel [OF assms])
  have "preorder_listing d c folder = concat (map
         (\<lambda>sub. (RListFolders_path folder @ sub) #
            (if snd (ListFolders c (RListFolders_path (RListFolders_path folder @ sub))) \<noteq> None
             then [] else preorder_listing (d - 1) c (RListFolders_path folder @ sub)))
         (fst (ListFolders c (RListFolders_path folder))))"
    by (simp only: eq d preorder_listing.simps Let_def diff_Suc_1)
  moreover have "preorder_listing d c folder = []"
    if "snd (ListFolders c (RListFolders_path folder)) \<noteq> None"
    using that by (rule preorder_listing_failed)
  ultimately show ?thesis
    using r by simp
qed

theorem RListFolders_swallows_errors_witness:
  "tree_within 3 failing_camera ''/'' \<and> (3 :: nat) \<le> 3 \<and>
   snd (ListFolders failing_camera ''/a/'') = Some (Errorf ''Unspecified error'') \<and>
   RListFolders 3 failing_camera ''/'' = Some [''/a'', ''/c'', ''/c/d''] \<and>
   RListFolders 3 failing_camera ''/a'' = Some []"
proof -
  have h1: "tree_within 3 failing_camera ''/''"
    by (simp add: failing_camera_def example_camera_def ListFolders_def cameraResultToError_def
        cameraListToMap_def RListFolders_path_def HasSuffix_def numeral_3_eq_3)
  have h1': "tree_within 3 failing_camera ''/a''"
    by (simp add: failing_camera_def example_camera_def ListFolders_def cameraResultToError_def
        cameraListToMap_def RListFolders_path_def HasSuffix_def numeral_3_eq_3)
  have h2: "(3 :: nat) \<le> 3"
    by simp
  have e: "snd (ListFolders failing_camera ''/a/'') = Some (Errorf ''Unspecified error'')"
    by (simp add: failing_camera_def example_camera_def ListFolders_def cameraResultToError_def)
  have p: "RListFolders_path ''/a'' = ''/a/''"
    by (simp add: RListFolders_path_def HasSuffix_def)
  from RListFolders_swallows_errors [OF h1' h2, THEN conjunct2] e p
  have a: "RListFolders 3 failing_camera ''/a'' = Some []"
    by simp
  from RListFolders_swallows_errors [OF h1 h2, THEN conjunct1]
  have "RListFolders 3 failing_camera ''/'' = Some [''/a'', ''/c'', ''/c/d'']"
    by (simp add: failing_camera_def example_camera_def ListFolders_def cameraResultToError_def
        cameraListToMap_def RListFolders_path_def HasSuffix_def numeral_2_eq_2)
  with a e h1 h2 show ?thesis
    by simp
qed

section \<open>Properties of the event wait and of the configuration tree\<close>

text \<open>
  Claim C3, as stated, fails: the goroutine sends one event and ends without closing the
  channel, so a second receive does not observe a closed channel; it blocks forever.
\<close>

theorem AsyncWaitForEvent_second_receive_counterexample:
  "fst (receive (AsyncWaitForEvent example_camera 1000)) =
     Received \<lparr>Type = 2, Folder = ''/a'', File = ''img1.jpg''\<rparr> \<and>
   fst (receive (snd (receive (AsyncWaitForEvent example_camera 1000)))) = BlocksForever \<and>
   fst (receive (snd (receive (AsyncWaitForEvent example_camera 1000)))) \<noteq> ChannelClosed"
  by (simp add: AsyncWaitForEvent_def example_camera_def cCameraEventToGoCameraEvent_def)

lemma C_int_in_range:
  assumes "- (2 ^ 31) \<le> n" and "n < 2 ^ 31"
  shows "C_int n = n"
proof -
  have "C_int n = signed_take_bit (LENGTH(32) - 1) n"
    unfolding C_int_def by (rule sint_sbintrunc')
  also have "\<dots> = n"
    using assms by (simp add: signed_take_bit_int_eq_self)
  finally show ?thesis .
qed

lemma AsyncWaitForEvent_timeout_wraps:
  "AsyncWaitForEvent c 4294967301 = AsyncWaitForEvent c 5"
  by (simp add: AsyncWaitForEvent_def C_int_def)

text \<open>
  Claim C3, amended. For every camera and timeout, the goroutine performs exactly one
  operation on the returned channel, the send of the event decoded from what the native
  wait (called with the timeout converted to a C \<open>int\<close>) stored. The first receive
  delivers that event; the channel is never closed, and every later receive blocks
  forever.
\<close>

theorem AsyncWaitForEvent_one_event:
  "\<exists>ev ch. receive (AsyncWaitForEvent c timeout) = (Received ev, ch) \<and>
     ev = cCameraEventToGoCameraEvent c (snd (gp_camera_wait_for_event c (C_int timeout)))
            (fst (gp_camera_wait_for_event c (C_int timeout))) \<and>
     receive ch = (BlocksForever, ch) \<and>
     length (AsyncWaitForEvent c timeout) = 1 \<and>
     ChClose \<notin> set (AsyncWaitForEvent c timeout)"
  by (simp add: AsyncWaitForEvent_def split_beta)

text \<open>
  Claim C9. When \<open>C.gp_widget_new\<close> succeeds with root \<open>w\<close> and
  \<open>C.gp_camera_get_config\<close> then fails (leaving \<open>w.widget\<close> as it was, as a native
  call does with its output parameter on failure), \<open>GetConfig\<close> returns \<open>nil\<close> and
  the error, and the one release call it has made before returning is
  \<open>C.gp_widget_free\<close> on \<open>w\<close>.
\<close>

theorem GetConfig_frees_root_on_failure:
  assumes "gp_widget_new c = (0, w)" and "gp_camera_get_config c w = (rc, w)" and "rc \<noteq> 0"
  shows "fst (GetConfig c) = (None, Some (Errorf (gp_result_as_string c rc))) \<and>
     fst (snd (GetConfig c)) = [Call_gp_widget_free w]"
  using assms by (simp add: GetConfig_def cameraResultToError_def Free_def)

theorem GetConfig_frees_root_on_failure_witness:
  "gp_widget_new failing_camera = (0, 100) \<and>
   gp_camera_get_config failing_camera 100 = (- 1, 100) \<and> (- 1 :: int) \<noteq> 0 \<and>
   GetConfig failing_camera =
     ((None, Some (Errorf ''Unspecified error'')), [Call_gp_widget_free 100], [])"
proof -
  have h1: "gp_widget_new failing_camera = (0, 100)"
    by (simp add: failing_camera_def example_camera_def)
  have h2: "gp_camera_get_config failing_camera 100 = (- 1, 100)"
    by (simp add: failing_camera_def example_camera_def)
  have h3: "(- 1 :: int) \<noteq> 0"
    by simp
  have "snd (snd (GetConfig failing_camera)) = []"
    by (simp add: GetConfig_def Free_def cameraResultToError_def failing_camera_def
        example_camera_def)
  moreover have "gp_result_as_string failing_camera (- 1) = ''Unspecified error''"
    by (simp add: failing_camera_def example_camera_def)
  ultimately show ?thesis
    using GetConfig_frees_root_on_failure [OF h1 h2 h3] h1 h2 h3
    by (simp add: prod_eq_iff)
qed

end
